theory Spec2Isabelle
  imports Main "HOL-Library.Word" "HOL-Library.AList" "HOL-Library.Multiset"
begin

section \<open>Data model of cmd/tool/cmd/sendtx.go\<close>

text \<open>
  Addresses, keys, transaction hashes and RPC clients are opaque to this file; they are
  modelled as natural numbers.  A \<open>*balance\<close> is a reference into an explicit store, since
  \<open>send\<close> mutates the sender through its pointer while the pool, the channel and the
  tracker lists hold copies of the same pointers.
\<close>

type_synonym Address = nat
type_synonym PrivateKey = nat
type_synonym Hash = nat
type_synonym Client = nat
type_synonym ref = nat
type_synonym Time = int

record balance =
  address :: Address
  privateKey :: PrivateKey
  amount :: int
  shard :: nat
  nonce :: "64 word"
  tx :: "Hash option"
  packed :: bool

datatype panic =
    IntnInvalidArgument
  | NoClientFound
  | ReadKeyFileFailed
  | LoadKeyFailed
  | GetBalanceFailed
  | ClientNotFoundInShard nat
  | DivisionByZero
  | ExternalPanic

text \<open>
  The package-level variables and the helpers of other packages that the file uses:
  the flags \<open>onlytps\<close>, \<open>tps\<close> and \<open>keyFile\<close>, the map \<open>clientList\<close> from shard to
  \<open>*rpc.Client\<close> (\<open>None\<close> is a nil pointer stored under a key; the list order is the
  order in which \<open>range\<close> visits the map), \<open>Address.Shard()\<close>, \<open>common.SeeleToFan\<close> and
  \<open>Hash.ToHex()\<close>.
\<close>

record config =
  onlytps :: bool
  tps :: int
  keyFile :: string
  clientList :: "(nat \<times> Client option) list"
  Shard :: "Address \<Rightarrow> nat"
  SeeleToFan :: int
  ToHex :: "Hash \<Rightarrow> string"

record store =
  cells :: "ref \<Rightarrow> balance"
  nxt :: ref

text \<open>\<open>&balance{...}\<close>: a fresh cell.\<close>

definition alloc :: "balance \<Rightarrow> store \<Rightarrow> ref \<times> store" where
  "alloc v s = (nxt s, s\<lparr>cells := (cells s)(nxt s := v), nxt := nxt s + 1\<rparr>)"

text \<open>A field assignment through the pointer \<open>r\<close>.\<close>

definition upd :: "ref \<Rightarrow> (balance \<Rightarrow> balance) \<Rightarrow> store \<Rightarrow> store" where
  "upd r f s = s\<lparr>cells := (cells s)(r := f (cells s r))\<rparr>"

text \<open>Arithmetic on Go's \<open>int\<close> (64 bits) wraps around.\<close>

definition int64 :: "int \<Rightarrow> int" where
  "int64 x = (x + 2 ^ 63) mod 2 ^ 64 - 2 ^ 63"

section \<open>send\<close>

text \<open>
  \<open>rand.Intn(n)\<close> panics for \<open>n <= 0\<close> and otherwise returns a number of \<open>[0, n)\<close>; the
  generator's draw is supplied by the environment.
\<close>

definition rand_Intn :: "nat \<Rightarrow> int \<Rightarrow> panic + int" where
  "rand_Intn draw n = (if n \<le> 0 then Inl IntnInvalidArgument else Inr (int draw mod n))"

fun getRandClient_loop :: "(nat \<times> Client option) list \<Rightarrow> int \<Rightarrow> int \<Rightarrow> Client option" where
  "getRandClient_loop [] index cnt = None"
| "getRandClient_loop ((k, v) # rest) index cnt =
     (if cnt = index then v else getRandClient_loop rest index (cnt + 1))"

definition getRandClient :: "config \<Rightarrow> nat \<Rightarrow> panic + Client option" where
  "getRandClient C draw =
     (if length (clientList C) = 0 then Inl NoClientFound
      else (case rand_Intn draw (int (length (clientList C))) of
              Inl p \<Rightarrow> Inl p
            | Inr index \<Rightarrow> Inr (getRandClient_loop (clientList C) index 0)))"

text \<open>
  What one call of \<open>send\<close> takes from outside: the two random draws, the key pair that
  \<open>crypto.MustGenerateShardKeyPair\<close> produces for a shard (\<open>None\<close> when it panics
  instead), and the answer
  \<open>(tx.Hash, ok)\<close> of \<open>util.Sendtx\<close> to its seven arguments.
\<close>

record send_env =
  draw_amount :: nat
  MustGenerateShardKeyPair :: "nat \<Rightarrow> (Address \<times> PrivateKey) option"
  draw_client :: nat
  Sendtx :: "Client option \<Rightarrow> PrivateKey \<Rightarrow> Address \<Rightarrow> int \<Rightarrow> int \<Rightarrow> 64 word \<Rightarrow> nat list
               \<Rightarrow> Hash \<times> bool"

definition send :: "config \<Rightarrow> send_env \<Rightarrow> ref \<Rightarrow> store \<Rightarrow> panic + (ref \<times> store)" where
  "send C ev b s =
     (case (if \<not> onlytps C then rand_Intn (draw_amount ev) (amount (cells s b)) else Inr 1) of
        Inl p \<Rightarrow> Inl p
      | Inr amt \<Rightarrow>
          (case MustGenerateShardKeyPair ev (Shard C (address (cells s b))) of
             None \<Rightarrow> Inl ExternalPanic
           | Some (addr, pk) \<Rightarrow>
               (let (newBalance, s1) =
                      alloc \<lparr>address = addr, privateKey = pk, amount = amt,
                             shard = Shard C addr, nonce = 0, tx = None, packed = False\<rparr> s;
                    val = amt * SeeleToFan C
                in case getRandClient C (draw_client ev) of
                     Inl p \<Rightarrow> Inl p
                   | Inr client \<Rightarrow>
                       (let (txh, ok) = Sendtx ev client (privateKey (cells s1 b)) addr val 0
                                          (nonce (cells s1 b)) []
                        in if ok then
                             (let s2 = upd b (\<lambda>x. x\<lparr>nonce := nonce x + 1\<rparr>) s1;
                                  s3 = upd b (\<lambda>x. x\<lparr>amount := int64 (amount x - amt)\<rparr>) s2;
                                  s4 = upd newBalance (\<lambda>x. x\<lparr>tx := Some txh\<rparr>) s3
                              in Inr (newBalance, s4))
                           else Inr (newBalance, s1)))))"

section \<open>getTx and getIncludedAndPendingBalance\<close>

text \<open>
  \<open>getClient\<close> indexes the map (a missing key reads as nil) and panics on nil.
\<close>

definition getClient :: "config \<Rightarrow> Address \<Rightarrow> panic + Client" where
  "getClient C a =
     (let sh = Shard C a
      in case map_of (clientList C) sh of
           Some (Some client) \<Rightarrow> Inr client
         | _ \<Rightarrow> Inl (ClientNotFoundInShard sh))"

text \<open>
  A \<open>map[string]interface{}\<close> as an association list; only string values compare equal
  to the string constants of the caller.  The RPC \<open>txpool.GetTransactionByHash\<close> answers
  with an error flag and whatever it stored in \<open>result\<close>.
\<close>

datatype jvalue = JString string | JOther

type_synonym tx_rpc = "Client \<Rightarrow> string \<Rightarrow> bool \<times> (string \<times> jvalue) list"

definition getTx :: "config \<Rightarrow> tx_rpc \<Rightarrow> Address \<Rightarrow> Hash \<Rightarrow> panic + (string \<times> jvalue) list" where
  "getTx C call a h =
     (case getClient C a of
        Inl p \<Rightarrow> Inl p
      | Inr client \<Rightarrow>
          (let addrStr = ToHex C h;
               (err, result) = call client addrStr
           in if err then Inr result else Inr result))"

fun getIncludedAndPendingBalance_loop ::
  "config \<Rightarrow> tx_rpc \<Rightarrow> store \<Rightarrow> ref list \<Rightarrow> ref list \<Rightarrow> ref list \<Rightarrow> panic + (ref list \<times> ref list)"
where
  "getIncludedAndPendingBalance_loop C call s [] incl pending = Inr (incl, pending)"
| "getIncludedAndPendingBalance_loop C call s (b # rest) incl pending =
     (case tx (cells s b) of
        None \<Rightarrow> getIncludedAndPendingBalance_loop C call s rest incl pending
      | Some h \<Rightarrow>
          (case getTx C call (address (cells s b)) h of
             Inl p \<Rightarrow> Inl p
           | Inr result \<Rightarrow>
               if length result > 0 then
                 (if map_of result ''status'' = Some (JString ''block'')
                  then getIncludedAndPendingBalance_loop C call s rest (incl @ [b]) pending
                  else if map_of result ''status'' = Some (JString ''pool'')
                  then getIncludedAndPendingBalance_loop C call s rest incl (pending @ [b])
                  else getIncludedAndPendingBalance_loop C call s rest incl pending)
               else getIncludedAndPendingBalance_loop C call s rest incl pending))"

definition getIncludedAndPendingBalance ::
  "config \<Rightarrow> tx_rpc \<Rightarrow> store \<Rightarrow> ref list \<Rightarrow> panic + (ref list \<times> ref list)" where
  "getIncludedAndPendingBalance C call s balances =
     getIncludedAndPendingBalance_loop C call s balances [] []"

section \<open>The two loops as a transition system\<close>

text \<open>
  \<open>loopSend\<close> and \<open>loopCheck\<close> run concurrently.  Each event below is one stretch of code
  that runs without the other goroutine being able to observe an intermediate state:
  the two critical sections of \<open>loopSend\<close>, one call of \<open>send\<close> (the only writer of the
  records), the channel send, and in \<open>loopCheck\<close> the channel receive, one poll, the
  start of a sweep and the visit of one bucket.  Clock readings and RPC answers come with
  the event.  The sleep that throttles \<open>loopSend\<close> changes timing only.
\<close>

datatype sender_pc = AtSnapshot | InPass "ref list" | AtEnqueue ref "ref list"

datatype tracker_pc = AtSelect | InSweep "Time list"

record state =
  heap :: store
  balanceList :: "ref list"
  txCh :: "ref list"
  send_count :: int
  sender :: sender_pc
  toPackedBalanceList :: "ref list"
  toConfirmBalanceList :: "(Time \<times> ref list) list"
  tracker :: tracker_pc

text \<open>
  \<open>Snapshot\<close> is lines 74 to 78, \<open>SendNext\<close> lines 81 and 82, \<open>Enqueue\<close> line 83 (it
  waits while the channel is full), \<open>Filter\<close> lines 99 to 107; \<open>Recv\<close> is lines 121 and
  122, \<open>CheckPack\<close> lines 123 to 129 with the reading of \<open>time.Now()\<close> at line 128,
  \<open>ConfirmTick\<close> the start of the \<open>range\<close> at line 131, and \<open>SweepOne\<close> one iteration of
  lines 132 to 141 with the reading of \<open>time.Now()\<close> at line 132.  \<open>loopCheck\<close> is started
  only when \<open>onlytps\<close> is off.
\<close>

datatype event =
    Snapshot
  | SendNext send_env
  | Enqueue
  | Filter
  | Recv
  | CheckPack Time tx_rpc
  | ConfirmTick
  | SweepOne Time

datatype outcome = is_Next: Next (next_state: state) | Crash panic | Disabled

definition txCh_capacity :: nat where
  "txCh_capacity = 100000"

text \<open>\<open>2 * time.Minute\<close>, in nanoseconds.\<close>

definition confirmTime :: int where
  "confirmTime = 2 * 60 * 1000000000"

text \<open>\<open>Time.Sub\<close> saturates at the bounds of \<open>time.Duration\<close> (an int64).\<close>

definition time_Sub :: "Time \<Rightarrow> Time \<Rightarrow> int" where
  "time_Sub t u =
     (let d = t - u
      in if d > 2 ^ 63 - 1 then 2 ^ 63 - 1 else if d < - (2 ^ 63) then - (2 ^ 63) else d)"

text \<open>Lines 86 to 96: \<open>count++\<close>, reset after every \<open>tps\<close>-th account.\<close>

definition count_step :: "config \<Rightarrow> int \<Rightarrow> int" where
  "count_step C n = (let n' = int64 (n + 1) in if n' = tps C then 0 else n')"

definition after_sweep :: "Time list \<Rightarrow> tracker_pc" where
  "after_sweep keys = (if keys = [] then AtSelect else InSweep keys)"

definition step :: "config \<Rightarrow> event \<Rightarrow> state \<Rightarrow> outcome" where
  "step C e st =
     (case e of
        Snapshot \<Rightarrow>
          (case sender st of
             AtSnapshot \<Rightarrow> Next (st\<lparr>sender := InPass (balanceList st)\<rparr>)
           | _ \<Rightarrow> Disabled)
      | SendNext ev \<Rightarrow>
          (case sender st of
             InPass (b # rest) \<Rightarrow>
               (case send C ev b (heap st) of
                  Inl p \<Rightarrow> Crash p
                | Inr (newBalance, h') \<Rightarrow>
                    if amount (cells h' newBalance) > 0
                    then Next (st\<lparr>heap := h', sender := AtEnqueue newBalance rest\<rparr>)
                    else Next (st\<lparr>heap := h', send_count := count_step C (send_count st),
                                  sender := InPass rest\<rparr>))
           | _ \<Rightarrow> Disabled)
      | Enqueue \<Rightarrow>
          (case sender st of
             AtEnqueue newBalance rest \<Rightarrow>
               if length (txCh st) < txCh_capacity
               then Next (st\<lparr>txCh := txCh st @ [newBalance],
                             send_count := count_step C (send_count st),
                             sender := InPass rest\<rparr>)
               else Disabled
           | _ \<Rightarrow> Disabled)
      | Filter \<Rightarrow>
          (case sender st of
             InPass [] \<Rightarrow>
               Next (st\<lparr>balanceList :=
                           filter (\<lambda>b. amount (cells (heap st) b) > 0) (balanceList st),
                        sender := AtSnapshot\<rparr>)
           | _ \<Rightarrow> Disabled)
      | Recv \<Rightarrow>
          (if onlytps C then Disabled
           else case (tracker st, txCh st) of
                  (AtSelect, b # rest) \<Rightarrow>
                    Next (st\<lparr>txCh := rest,
                             toPackedBalanceList := toPackedBalanceList st @ [b]\<rparr>)
                | _ \<Rightarrow> Disabled)
      | CheckPack now call \<Rightarrow>
          (if onlytps C then Disabled
           else case tracker st of
                  AtSelect \<Rightarrow>
                    (case getIncludedAndPendingBalance C call (heap st) (toPackedBalanceList st) of
                       Inl p \<Rightarrow> Crash p
                     | Inr (included, pending) \<Rightarrow>
                         Next (st\<lparr>toPackedBalanceList := pending,
                                  toConfirmBalanceList :=
                                    AList.update now included (toConfirmBalanceList st)\<rparr>))
                | _ \<Rightarrow> Disabled)
      | ConfirmTick \<Rightarrow>
          (if onlytps C then Disabled
           else case tracker st of
                  AtSelect \<Rightarrow>
                    Next (st\<lparr>tracker := after_sweep (map fst (toConfirmBalanceList st))\<rparr>)
                | _ \<Rightarrow> Disabled)
      | SweepOne now \<Rightarrow>
          (if onlytps C then Disabled
           else case tracker st of
                  InSweep (key # keys) \<Rightarrow>
                    (case map_of (toConfirmBalanceList st) key of
                       None \<Rightarrow> Next (st\<lparr>tracker := after_sweep keys\<rparr>)
                     | Some val \<Rightarrow>
                         (let duration = time_Sub now key
                          in if duration > confirmTime
                             then Next (st\<lparr>balanceList := balanceList st @ val,
                                           toConfirmBalanceList :=
                                             AList.delete key (toConfirmBalanceList st),
                                           tracker := after_sweep keys\<rparr>)
                             else Next (st\<lparr>tracker := after_sweep keys\<rparr>)))
                | _ \<Rightarrow> Disabled))"

fun run :: "config \<Rightarrow> event list \<Rightarrow> state \<Rightarrow> outcome" where
  "run C [] st = Next st"
| "run C (e # es) st =
     (case step C e st of
        Next st' \<Rightarrow> run C es st'
      | Crash p \<Rightarrow> Crash p
      | Disabled \<Rightarrow> Disabled)"

section \<open>initAccount\<close>

text \<open>
  What bootstrap takes from outside: \<open>ioutil.ReadFile\<close> (\<open>None\<close> is an error),
  \<open>crypto.LoadECDSAFromString\<close> (\<open>None\<close> is an error), \<open>crypto.GetAddress\<close>, the RPC
  \<open>seele.GetBalance\<close> (\<open>None\<close> is an error, otherwise the big integer it stored) and
  \<open>util.GetNonce\<close> (\<open>None\<close> when it panics instead of returning).
\<close>

record boot_env =
  ReadFile :: "string \<Rightarrow> string option"
  LoadECDSAFromString :: "string \<Rightarrow> PrivateKey option"
  GetAddress :: "PrivateKey \<Rightarrow> Address"
  Call_GetBalance :: "Client \<Rightarrow> Address \<Rightarrow> int option"
  GetNonce :: "Client \<Rightarrow> Address \<Rightarrow> 64 word option"

text \<open>\<open>strings.Split(s, "\n")\<close>.\<close>

fun Split_nl :: "string \<Rightarrow> string list" where
  "Split_nl [] = [[]]"
| "Split_nl (c # cs) =
     (if c = CHR 0x0A then [] # Split_nl cs
      else (case Split_nl cs of
              [] \<Rightarrow> [[c]]
            | l # ls \<Rightarrow> (c # l) # ls))"

text \<open>
  \<open>big.Int.Div\<close> is Euclidean division and panics on a zero divisor; \<open>Uint64\<close> takes the low
  64 bits of the absolute value; \<open>int(...)\<close> reads them as a signed number.
\<close>

definition big_Div :: "int \<Rightarrow> int \<Rightarrow> panic + int" where
  "big_Div x y = (if y = 0 then Inl DivisionByZero else Inr (sgn y * (x div \<bar>y\<bar>)))"

definition big_Uint64 :: "int \<Rightarrow> 64 word" where
  "big_Uint64 x = word_of_int \<bar>x\<bar>"

definition getBalance :: "config \<Rightarrow> boot_env \<Rightarrow> Address \<Rightarrow> panic + (int \<times> bool)" where
  "getBalance C B a =
     (case getClient C a of
        Inl p \<Rightarrow> Inl p
      | Inr client \<Rightarrow>
          (case Call_GetBalance B client a of
             None \<Rightarrow> Inl GetBalanceFailed
           | Some amt \<Rightarrow>
               (case big_Div amt (SeeleToFan C) of
                  Inl p \<Rightarrow> Inl p
                | Inr q \<Rightarrow> Inr (sint (big_Uint64 q), True))))"

definition getNonce :: "config \<Rightarrow> boot_env \<Rightarrow> Address \<Rightarrow> panic + 64 word" where
  "getNonce C B a =
     (case getClient C a of
        Inl p \<Rightarrow> Inl p
      | Inr client \<Rightarrow>
          (case GetNonce B client a of
             None \<Rightarrow> Inl ExternalPanic
           | Some n \<Rightarrow> Inr n))"

fun initAccount_loop ::
  "config \<Rightarrow> boot_env \<Rightarrow> string list \<Rightarrow> ref list \<Rightarrow> store \<Rightarrow> panic + (ref list \<times> store)"
where
  "initAccount_loop C B [] bl s = Inr (bl, s)"
| "initAccount_loop C B (hex # rest) bl s =
     (if hex = [] then initAccount_loop C B rest bl s
      else case LoadECDSAFromString B hex of
             None \<Rightarrow> Inl LoadKeyFailed
           | Some key \<Rightarrow>
               (let addr = GetAddress B key
                in if map_of (clientList C) (Shard C addr) = None
                   then initAccount_loop C B rest bl s
                   else case getBalance C B addr of
                          Inl p \<Rightarrow> Inl p
                        | Inr (amt, ok) \<Rightarrow>
                            if \<not> ok then initAccount_loop C B rest bl s
                            else
                              (let (b, s1) =
                                     alloc \<lparr>address = addr, privateKey = key, amount = amt,
                                            shard = Shard C addr, nonce = 0, tx = None,
                                            packed = False\<rparr> s
                               in if amount (cells s1 b) > 0
                                  then (case getNonce C B (address (cells s1 b)) of
                                          Inl p \<Rightarrow> Inl p
                                        | Inr n \<Rightarrow>
                                            initAccount_loop C B rest (bl @ [b])
                                              (upd b (\<lambda>x. x\<lparr>nonce := n\<rparr>) s1))
                                  else initAccount_loop C B rest bl s1)))"

definition initAccount :: "config \<Rightarrow> boot_env \<Rightarrow> store \<Rightarrow> panic + (ref list \<times> store)" where
  "initAccount C B s =
     (case ReadFile B (keyFile C) of
        None \<Rightarrow> Inl ReadKeyFileFailed
      | Some keys \<Rightarrow> initAccount_loop C B (Split_nl keys) [] s)"

text \<open>The state in which the command starts the two goroutines.\<close>

definition start :: "ref list \<Rightarrow> store \<Rightarrow> state" where
  "start bl s = \<lparr>heap = s, balanceList = bl, txCh = [], send_count = 0, sender = AtSnapshot,
                 toPackedBalanceList = [], toConfirmBalanceList = [], tracker = AtSelect\<rparr>"

definition null_balance :: balance where
  "null_balance = \<lparr>address = 0, privateKey = 0, amount = 0, shard = 0, nonce = 0,
                    tx = None, packed = False\<rparr>"

definition empty_store :: store where
  "empty_store = \<lparr>cells = (\<lambda>r. null_balance), nxt = 0\<rparr>"

text \<open>
  The command's \<open>Run\<close>: bootstrap, then both goroutines start on the seeded pool.
\<close>

definition sendTxCmd_Run :: "config \<Rightarrow> boot_env \<Rightarrow> outcome" where
  "sendTxCmd_Run C B =
     (case initAccount C B empty_store of
        Inl p \<Rightarrow> Crash p
      | Inr (bl, s) \<Rightarrow> Next (start bl s))"

section \<open>Invariants\<close>

text \<open>
  The references a state holds outside the pool: the recipient waiting to be sent on the
  channel, the channel, the tracker's list and its buckets; and the part of the snapshot
  that \<open>loopSend\<close> has still to visit.
\<close>

fun sender_rest :: "sender_pc \<Rightarrow> ref list" where
  "sender_rest AtSnapshot = []"
| "sender_rest (InPass rest) = rest"
| "sender_rest (AtEnqueue nb rest) = rest"

fun sender_new :: "sender_pc \<Rightarrow> ref list" where
  "sender_new (AtEnqueue nb rest) = [nb]"
| "sender_new _ = []"

definition tracked :: "state \<Rightarrow> ref set" where
  "tracked st = set (sender_new (sender st)) \<union> set (txCh st) \<union> set (toPackedBalanceList st)
                  \<union> set (concat (map snd (toConfirmBalanceList st)))"

definition below :: "store \<Rightarrow> ref set \<Rightarrow> bool" where
  "below h S \<longleftrightarrow> (\<forall>r \<in> S. r < nxt h)"

definition pos :: "store \<Rightarrow> ref set \<Rightarrow> bool" where
  "pos h S \<longleftrightarrow> (\<forall>r \<in> S. 0 < amount (cells h r))"

definition nonneg :: "store \<Rightarrow> ref set \<Rightarrow> bool" where
  "nonneg h S \<longleftrightarrow> (\<forall>r \<in> S. 0 \<le> amount (cells h r))"

definition ranged :: "store \<Rightarrow> bool" where
  "ranged h \<longleftrightarrow> (\<forall>r < nxt h. amount (cells h r) < 2 ^ 63)"

definition inv :: "config \<Rightarrow> state \<Rightarrow> bool" where
  "inv C st \<longleftrightarrow>
     below (heap st) (set (balanceList st) \<union> set (sender_rest (sender st)) \<union> tracked st) \<and>
     ranged (heap st) \<and>
     nonneg (heap st) (set (balanceList st)) \<and>
     pos (heap st) (set (sender_rest (sender st))) \<and>
     (sender st = AtSnapshot \<longrightarrow> pos (heap st) (set (balanceList st))) \<and>
     (onlytps C \<longrightarrow> distinct (balanceList st) \<and> distinct (sender_rest (sender st))) \<and>
     (\<not> onlytps C \<longrightarrow> pos (heap st) (set (balanceList st) \<union> tracked st))"

definition boot_inv :: "ref list \<Rightarrow> store \<Rightarrow> bool" where
  "boot_inv bl s \<longleftrightarrow> distinct bl \<and> below s (set bl) \<and> pos s (set bl) \<and> ranged s"


section \<open>Concrete inputs\<close>

definition C_tps :: config where
  "C_tps = \<lparr>onlytps = True, tps = 3, keyFile = ''keystore.txt'',
            clientList = [(1, Some 0)], Shard = (\<lambda>a. 1), SeeleToFan = 100000000,
            ToHex = (\<lambda>h. [])\<rparr>"

definition C_rand :: config where
  "C_rand = C_tps\<lparr>onlytps := False\<rparr>"

definition acct :: "int \<Rightarrow> balance" where
  "acct a = \<lparr>address = 10, privateKey = 20, amount = a, shard = 1, nonce = 7,
             tx = None, packed = False\<rparr>"

definition store1 :: "int \<Rightarrow> store" where
  "store1 a = \<lparr>cells = (\<lambda>r. acct a), nxt = 1\<rparr>"

definition ev_ok :: "nat \<Rightarrow> send_env" where
  "ev_ok d = \<lparr>draw_amount = d, MustGenerateShardKeyPair = (\<lambda>sh. Some (11, 21)),
              draw_client = 0, Sendtx = (\<lambda>c k a v f n p. (99, True))\<rparr>"

definition ev_fail :: "nat \<Rightarrow> send_env" where
  "ev_fail d = (ev_ok d)\<lparr>Sendtx := (\<lambda>c k a v f n p. (0, False))\<rparr>"


text \<open>A key file with one key, whose account holds 100 Seele.\<close>

definition B_one :: boot_env where
  "B_one = \<lparr>ReadFile = (\<lambda>f. Some ''k''),
            LoadECDSAFromString = (\<lambda>h. if h = ''k'' then Some 20 else None),
            GetAddress = (\<lambda>k. 10),
            Call_GetBalance = (\<lambda>c a. Some 10000000000),
            GetNonce = (\<lambda>c a. Some 7)\<rparr>"


definition rpc_status :: "string \<Rightarrow> tx_rpc" where
  "rpc_status x = (\<lambda>c h. (False, [(''status'', JString x)]))"

text \<open>A tracker state holding one recipient whose funding transaction is \<open>99\<close>.\<close>

definition tracking :: state where
  "tracking = (start [] \<lparr>cells = (\<lambda>r. (acct 1)\<lparr>tx := Some 99\<rparr>), nxt = 2\<rparr>)
                \<lparr>toPackedBalanceList := [1]\<rparr>"

text \<open>A tracker state in a sweep, visiting the bucket made at time \<open>0\<close>.\<close>

definition sweeping :: state where
  "sweeping = (start [] \<lparr>cells = (\<lambda>r. (acct 1)\<lparr>tx := Some 99\<rparr>), nxt = 2\<rparr>)
                \<lparr>toConfirmBalanceList := [(0, [1])], tracker := InSweep [0]\<rparr>"

text \<open>Variants of the bootstrap environment and of the configuration.\<close>

definition B_missing :: boot_env where
  "B_missing = B_one\<lparr>ReadFile := (\<lambda>f. None)\<rparr>"

definition B_bad :: boot_env where
  "B_bad = B_one\<lparr>LoadECDSAFromString := (\<lambda>h. None)\<rparr>"

definition B_rpc :: boot_env where
  "B_rpc = B_one\<lparr>Call_GetBalance := (\<lambda>c a. None)\<rparr>"

definition B_zero :: boot_env where
  "B_zero = B_one\<lparr>Call_GetBalance := (\<lambda>c a. Some 99999999)\<rparr>"

definition C_noclient :: config where
  "C_noclient = C_tps\<lparr>clientList := []\<rparr>"

text \<open>The store after bootstrap from \<open>B_one\<close>, and the states after the two runs below.\<close>

definition seeded :: store where
  "seeded = \<lparr>cells = (\<lambda>r. null_balance)(0 := acct 100), nxt = 1\<rparr>"


definition after_rand_send :: state where
  "after_rand_send =
     \<lparr>heap = \<lparr>cells = (\<lambda>r. null_balance)
                 (0 := (acct 97)\<lparr>nonce := 8\<rparr>,
                  1 := \<lparr>address = 11, privateKey = 21, amount = 3, shard = 1,
                         nonce = 0, tx = Some 99, packed = False\<rparr>), nxt = 2\<rparr>,
      balanceList = [0], txCh = [], send_count = 0, sender = AtEnqueue 1 [],
      toPackedBalanceList = [], toConfirmBalanceList = [], tracker = AtSelect\<rparr>"

section \<open>What one call of send does\<close>

lemma int64_id: "- (2 ^ 63) \<le> x \<Longrightarrow> x < 2 ^ 63 \<Longrightarrow> int64 x = x"
  by (simp add: int64_def)

lemma send_result:
  assumes S: "send C ev b s = Inr (nb, s')" and B: "b < nxt s"
  obtains amt addr pk client h ok where
    "if onlytps C then amt = 1
     else 0 < amount (cells s b) \<and> amt = int (draw_amount ev) mod amount (cells s b)"
    "Sendtx ev client (privateKey (cells s b)) addr (amt * SeeleToFan C) 0 (nonce (cells s b)) [] = (h, ok)"
    "nb = nxt s" "nxt s' = nxt s + 1"
    "\<forall>r. r \<noteq> b \<longrightarrow> r \<noteq> nb \<longrightarrow> cells s' r = cells s r"
    "cells s' nb = \<lparr>address = addr, privateKey = pk, amount = amt, shard = Shard C addr,
                    nonce = 0, tx = (if ok then Some h else None), packed = False\<rparr>"
    "cells s' b = (if ok then (cells s b)\<lparr>nonce := nonce (cells s b) + 1,
                                        amount := int64 (amount (cells s b) - amt)\<rparr>
                   else cells s b)"
proof -
  from S obtain amt where
    A: "(if \<not> onlytps C then rand_Intn (draw_amount ev) (amount (cells s b)) else Inr 1) = Inr amt"
    by (cases "if \<not> onlytps C then rand_Intn (draw_amount ev) (amount (cells s b)) else Inr 1")
       (simp_all add: send_def)
  from S A obtain addr pk where
    K: "MustGenerateShardKeyPair ev (Shard C (address (cells s b))) = Some (addr, pk)"
    by (cases "MustGenerateShardKeyPair ev (Shard C (address (cells s b)))")
       (auto simp: send_def)
  from S A K obtain client where
    G: "getRandClient C (draw_client ev) = Inr client"
    by (cases "getRandClient C (draw_client ev)")
       (auto simp: send_def alloc_def Let_def)
  obtain h ok where
    X: "Sendtx ev client (privateKey (cells s b)) addr (amt * SeeleToFan C) 0 (nonce (cells s b)) [] = (h, ok)"
    by (cases "Sendtx ev client (privateKey (cells s b)) addr (amt * SeeleToFan C) 0 (nonce (cells s b)) []")
  from A have 1: "if onlytps C then amt = 1
     else 0 < amount (cells s b) \<and> amt = int (draw_amount ev) mod amount (cells s b)"
    by (auto simp: rand_Intn_def split: if_splits)
  from S A K G X B have R: "nb = nxt s"
      "s' = (if ok then
               s\<lparr>cells := (cells s)(b := (cells s b)\<lparr>nonce := nonce (cells s b) + 1,
                                        amount := int64 (amount (cells s b) - amt)\<rparr>,
                     nxt s := \<lparr>address = addr, privateKey = pk, amount = amt, shard = Shard C addr,
                    nonce = 0, tx = Some h, packed = False\<rparr>), nxt := nxt s + 1\<rparr>
             else s\<lparr>cells := (cells s)(nxt s := \<lparr>address = addr, privateKey = pk, amount = amt, shard = Shard C addr,
                    nonce = 0, tx = None, packed = False\<rparr>), nxt := nxt s + 1\<rparr>)"
    by (auto simp: send_def alloc_def upd_def Let_def split: if_splits)
  show thesis
    by (rule that[of amt client addr h ok pk]) (use 1 X R B in \<open>auto\<close>)
qed

section \<open>Preservation of the invariant\<close>

lemma below_simps [simp]:
  "below h {}" "below h (A \<union> B) \<longleftrightarrow> below h A \<and> below h B"
  "below h (insert r A) \<longleftrightarrow> r < nxt h \<and> below h A"
  by (auto simp: below_def)

lemma pos_simps [simp]:
  "pos h {}" "pos h (A \<union> B) \<longleftrightarrow> pos h A \<and> pos h B"
  "pos h (insert r A) \<longleftrightarrow> 0 < amount (cells h r) \<and> pos h A"
  by (auto simp: pos_def)

lemma nonneg_simps [simp]:
  "nonneg h {}" "nonneg h (A \<union> B) \<longleftrightarrow> nonneg h A \<and> nonneg h B"
  "nonneg h (insert r A) \<longleftrightarrow> 0 \<le> amount (cells h r) \<and> nonneg h A"
  by (auto simp: nonneg_def)

lemma below_mono: "below h B \<Longrightarrow> A \<subseteq> B \<Longrightarrow> below h A"
  by (auto simp: below_def)

lemma pos_mono: "pos h B \<Longrightarrow> A \<subseteq> B \<Longrightarrow> pos h A"
  by (auto simp: pos_def)

lemma pos_nonneg: "pos h A \<Longrightarrow> nonneg h A"
  by (auto simp: pos_def nonneg_def)

lemma send_amounts:
  assumes S: "send C ev b s = Inr (nb, s')" and B: "b < nxt s"
    and P: "0 < amount (cells s b)" and U: "amount (cells s b) < 2 ^ 63"
  shows "nb = nxt s" "nxt s' = Suc (nxt s)"
    "\<And>r. r \<noteq> b \<Longrightarrow> r \<noteq> nb \<Longrightarrow> cells s' r = cells s r"
    "0 \<le> amount (cells s' b)" "amount (cells s' b) \<le> amount (cells s b)"
    "\<not> onlytps C \<Longrightarrow> 0 < amount (cells s' b)"
    "0 \<le> amount (cells s' nb)" "amount (cells s' nb) < 2 ^ 63"
proof -
  from S B obtain amt addr pk client h ok where
    1: "if onlytps C then amt = 1
     else 0 < amount (cells s b) \<and> amt = int (draw_amount ev) mod amount (cells s b)"
    and 2: "nb = nxt s" "nxt s' = nxt s + 1"
    "\<forall>r. r \<noteq> b \<longrightarrow> r \<noteq> nb \<longrightarrow> cells s' r = cells s r"
    and 3: "cells s' nb = \<lparr>address = addr, privateKey = pk, amount = amt, shard = Shard C addr,
                    nonce = 0, tx = (if ok then Some h else None), packed = False\<rparr>"
    "cells s' b = (if ok then (cells s b)\<lparr>nonce := nonce (cells s b) + 1,
                                        amount := int64 (amount (cells s b) - amt)\<rparr>
                   else cells s b)"
    by (rule send_result)
  from 1 P have amt: "0 \<le> amt" "amt \<le> amount (cells s b)" "\<not> onlytps C \<Longrightarrow> amt < amount (cells s b)"
    by (auto split: if_splits simp: pos_mod_bound order_less_imp_le)
  have W: "int64 (amount (cells s b) - amt) = amount (cells s b) - amt"
    using amt U P by (intro int64_id) auto
  show "nb = nxt s" "nxt s' = Suc (nxt s)" using 2 by auto
  show "\<And>r. r \<noteq> b \<Longrightarrow> r \<noteq> nb \<Longrightarrow> cells s' r = cells s r" using 2 by auto
  show "0 \<le> amount (cells s' b)" "amount (cells s' b) \<le> amount (cells s b)"
    using 3 W amt P by (auto split: if_splits)
  show "\<not> onlytps C \<Longrightarrow> 0 < amount (cells s' b)"
    using 3 W amt P by (auto split: if_splits)
  show "0 \<le> amount (cells s' nb)" "amount (cells s' nb) < 2 ^ 63"
    using 3 amt U by auto
qed

lemma loop_subset:
  "getIncludedAndPendingBalance_loop C call s bs incl pending = Inr (i, p) \<Longrightarrow>
     set i \<subseteq> set incl \<union> set bs \<and> set p \<subseteq> set pending \<union> set bs"
proof (induction bs arbitrary: incl pending)
  case Nil
  then show ?case by simp
next
  case (Cons b rest)
  show ?case
  proof (cases "tx (cells s b)")
    case None
    with Cons.prems have "getIncludedAndPendingBalance_loop C call s rest incl pending = Inr (i, p)"
      by simp
    from Cons.IH[OF this] show ?thesis by auto
  next
    case (Some h)
    with Cons.prems obtain result where G: "getTx C call (address (cells s b)) h = Inr result"
      by (cases "getTx C call (address (cells s b)) h") auto
    with Some Cons.prems have
      "getIncludedAndPendingBalance_loop C call s rest incl pending = Inr (i, p) \<or>
       getIncludedAndPendingBalance_loop C call s rest (incl @ [b]) pending = Inr (i, p) \<or>
       getIncludedAndPendingBalance_loop C call s rest incl (pending @ [b]) = Inr (i, p)"
      by (auto split: if_splits)
    then show ?thesis
      using Cons.IH[of incl pending] Cons.IH[of "incl @ [b]" pending] Cons.IH[of incl "pending @ [b]"]
      by auto
  qed
qed

lemma buckets_update:
  "set (concat (map snd (AList.update k v al))) \<subseteq> set v \<union> set (concat (map snd al))"
  by (induction al) auto

lemma buckets_delete:
  "set (concat (map snd (AList.delete k al))) \<subseteq> set (concat (map snd al))"
  by (induction al) auto

lemma buckets_lookup:
  "map_of al k = Some v \<Longrightarrow> set v \<subseteq> set (concat (map snd al))"
  by (induction al) (auto split: if_splits)

lemma inv_Snapshot: "inv C st \<Longrightarrow> step C Snapshot st = Next st' \<Longrightarrow> inv C st'"
  by (cases "sender st") (auto simp: step_def inv_def tracked_def pos_nonneg)

lemma inv_Enqueue: "inv C st \<Longrightarrow> step C Enqueue st = Next st' \<Longrightarrow> inv C st'"
  by (cases "sender st") (auto simp: step_def inv_def tracked_def split: if_splits)

lemma pos_filter: "pos h (set (filter (\<lambda>b. 0 < amount (cells h b)) xs))"
  by (auto simp: pos_def)

lemma inv_Filter:
  assumes "inv C st" and "step C Filter st = Next st'"
  shows "inv C st'"
proof -
  from assms(2) have pc: "sender st = InPass []"
    and st': "st' = st\<lparr>balanceList := filter (\<lambda>b. amount (cells (heap st) b) > 0) (balanceList st),
                        sender := AtSnapshot\<rparr>"
    by (auto simp: step_def split: sender_pc.splits list.splits)
  have sub: "set (filter (\<lambda>b. amount (cells (heap st) b) > 0) (balanceList st)) \<subseteq> set (balanceList st)"
    by auto
  from assms(1) pc show ?thesis
    unfolding st' inv_def
    by (simp add: tracked_def) (auto simp: below_def pos_def nonneg_def)
qed

lemma inv_Recv: "inv C st \<Longrightarrow> step C Recv st = Next st' \<Longrightarrow> inv C st'"
  by (cases "tracker st"; cases "txCh st")
     (auto simp: step_def inv_def tracked_def split: if_splits)

lemma inv_ConfirmTick: "inv C st \<Longrightarrow> step C ConfirmTick st = Next st' \<Longrightarrow> inv C st'"
  by (cases "tracker st") (auto simp: step_def inv_def tracked_def split: if_splits)

lemma inv_SendNext:
  assumes I: "inv C st" and S: "step C (SendNext ev) st = Next st'"
  shows "inv C st'"
proof -
  from S obtain b rest where pc: "sender st = InPass (b # rest)"
    by (auto simp: step_def split: sender_pc.splits list.splits)
  from S pc obtain nb h' where snd: "send C ev b (heap st) = Inr (nb, h')"
    and st': "st' = (if amount (cells h' nb) > 0
                     then st\<lparr>heap := h', sender := AtEnqueue nb rest\<rparr>
                     else st\<lparr>heap := h', send_count := count_step C (send_count st),
                              sender := InPass rest\<rparr>)"
    by (auto simp: step_def split: sum.splits if_splits)
  let ?h = "heap st"
  from I pc have b: "b < nxt ?h" "0 < amount (cells ?h b)" "amount (cells ?h b) < 2 ^ 63"
    by (auto simp: inv_def ranged_def)
  note A = send_amounts[OF snd b]
  have below': "below h' S" if "below ?h S" for S
    using that A(2) by (auto simp: below_def)
  have nb: "nb < nxt h'" using A(1,2) by simp
  from I have R: "ranged ?h" by (simp add: inv_def)
  have ranged': "ranged h'"
    unfolding ranged_def
  proof (intro allI impI)
    fix r assume "r < nxt h'"
    then consider "r = nb" | "r = b" | "r \<noteq> nb" "r \<noteq> b" "r < nxt ?h"
      using A(1,2) by force
    then show "amount (cells h' r) < 2 ^ 63"
    proof cases
      case 1 then show ?thesis using A(8) by simp
    next
      case 2 then show ?thesis using A(5) b(3) by simp
    next
      case 3 then show ?thesis using A(3)[of r] R by (simp add: ranged_def)
    qed
  qed
  have nonneg': "nonneg h' S" if "below ?h S" "nonneg ?h S" for S
    unfolding nonneg_def
  proof
    fix r assume r: "r \<in> S"
    with that have "r < nxt ?h" "0 \<le> amount (cells ?h r)" by (auto simp: below_def nonneg_def)
    then show "0 \<le> amount (cells h' r)"
      using A(1) A(3)[of r] A(4) by (cases "r = b") auto
  qed
  have pos': "pos h' S" if "below ?h S" "pos ?h S" "b \<notin> S \<or> \<not> onlytps C" for S
    unfolding pos_def
  proof
    fix r assume r: "r \<in> S"
    with that have "r < nxt ?h" "0 < amount (cells ?h r)" by (auto simp: below_def pos_def)
    then show "0 < amount (cells h' r)"
      using A(1) A(3)[of r] A(6) that(3) r by (cases "r = b") auto
  qed
  from I pc have I': "below ?h (set (balanceList st))" "below ?h (set rest)" "below ?h (tracked st)"
    "nonneg ?h (set (balanceList st))" "pos ?h (set rest)"
    "onlytps C \<Longrightarrow> distinct (balanceList st) \<and> b \<notin> set rest \<and> distinct rest"
    "\<not> onlytps C \<Longrightarrow> pos ?h (set (balanceList st)) \<and> pos ?h (tracked st)"
    by (auto simp: inv_def)
  have T: "tracked (st\<lparr>heap := h', sender := AtEnqueue nb rest\<rparr>) = insert nb (tracked st)"
    "tracked (st\<lparr>heap := h', send_count := n, sender := InPass rest\<rparr>) = tracked st" for n
    using pc by (auto simp: tracked_def)
  have P: "pos h' (set rest)"
    using pos'[OF I'(2) I'(5)] I'(6) by blast
  show ?thesis
  proof (cases "amount (cells h' nb) > 0")
    case True
    then show ?thesis
      unfolding inv_def st' using nb ranged' P I'(6)
        below'[OF I'(1)] below'[OF I'(2)] below'[OF I'(3)] nonneg'[OF I'(1) I'(4)]
        pos'[OF I'(1), of ] pos'[OF I'(3)] I'(7)
      by (simp add: T)
  next
    case False
    then show ?thesis
      unfolding inv_def st' using nb ranged' P I'(6)
        below'[OF I'(1)] below'[OF I'(2)] below'[OF I'(3)] nonneg'[OF I'(1) I'(4)]
        pos'[OF I'(1), of ] pos'[OF I'(3)] I'(7)
      by (simp add: T)
  qed
qed

lemma no_Intn_panic_SendNext:
  assumes I: "inv C st"
  shows "step C (SendNext ev) st \<noteq> Crash IntnInvalidArgument"
proof
  assume S: "step C (SendNext ev) st = Crash IntnInvalidArgument"
  then obtain b rest where pc: "sender st = InPass (b # rest)"
    by (auto simp: step_def split: sender_pc.splits list.splits)
  from S pc have snd: "send C ev b (heap st) = Inl IntnInvalidArgument"
    by (auto simp: step_def split: sum.splits if_splits prod.splits)
  from I pc have b: "0 < amount (cells (heap st) b)"
    by (auto simp: inv_def)
  from snd b show False
    by (auto simp: send_def rand_Intn_def getRandClient_def alloc_def Let_def
             split: sum.splits if_splits prod.splits option.splits)
qed

lemma inv_CheckPack:
  assumes I: "inv C st" and S: "step C (CheckPack now call) st = Next st'"
  shows "inv C st'"
proof -
  from S have not: "\<not> onlytps C" and pc: "tracker st = AtSelect"
    by (auto simp: step_def split: if_splits tracker_pc.splits)
  from S not pc obtain included pending where
    G: "getIncludedAndPendingBalance C call (heap st) (toPackedBalanceList st) = Inr (included, pending)"
    and st': "st' = st\<lparr>toPackedBalanceList := pending,
                        toConfirmBalanceList := AList.update now included (toConfirmBalanceList st)\<rparr>"
    by (auto simp: step_def split: sum.splits)
  from loop_subset[OF G[unfolded getIncludedAndPendingBalance_def]]
  have sub: "set included \<subseteq> set (toPackedBalanceList st)" "set pending \<subseteq> set (toPackedBalanceList st)"
    by auto
  have T: "tracked st' \<subseteq> tracked st"
    unfolding st' tracked_def using sub buckets_update[of now included "toConfirmBalanceList st"]
    by (simp del: set_concat) blast
  from I not have "below (heap st) (tracked st)" "pos (heap st) (tracked st)"
    by (auto simp: inv_def)
  then have "below (heap st) (tracked st')" "pos (heap st) (tracked st')"
    using T below_mono pos_mono by blast+
  moreover have "heap st' = heap st" "balanceList st' = balanceList st" "sender st' = sender st"
    by (simp_all add: st')
  ultimately show ?thesis using I not by (simp add: inv_def)
qed

lemma inv_SweepOne:
  assumes I: "inv C st" and S: "step C (SweepOne now) st = Next st'"
  shows "inv C st'"
proof -
  from S have not: "\<not> onlytps C"
    by (auto simp: step_def split: if_splits)
  from S not obtain key keys where pc: "tracker st = InSweep (key # keys)"
    by (auto simp: step_def split: tracker_pc.splits list.splits)
  from I not have B: "below (heap st) (tracked st)" "pos (heap st) (tracked st)"
    by (auto simp: inv_def)
  show ?thesis
  proof (cases "map_of (toConfirmBalanceList st) key")
    case None
    with S not pc have "st' = st\<lparr>tracker := after_sweep keys\<rparr>"
      by (simp add: step_def)
    with I show ?thesis by (simp add: inv_def tracked_def)
  next
    case (Some val)
    show ?thesis
    proof (cases "time_Sub now key > confirmTime")
      case False
      with Some S not pc have "st' = st\<lparr>tracker := after_sweep keys\<rparr>"
        by (simp add: step_def)
      with I show ?thesis by (simp add: inv_def tracked_def)
    next
      case True
      with Some S not pc have st': "st' = st\<lparr>balanceList := balanceList st @ val,
                       toConfirmBalanceList := AList.delete key (toConfirmBalanceList st),
                       tracker := after_sweep keys\<rparr>"
        by (simp add: step_def)
      have v: "set val \<subseteq> tracked st"
        using buckets_lookup[OF Some] by (auto simp: tracked_def)
      have T: "tracked st' \<subseteq> tracked st"
        unfolding st' tracked_def using buckets_delete[of key "toConfirmBalanceList st"]
        by (simp del: set_concat) blast
      have 1: "below (heap st) (tracked st')" "pos (heap st) (tracked st')"
        "below (heap st) (set val)" "pos (heap st) (set val)"
        using T v B below_mono pos_mono by blast+
      have 2: "heap st' = heap st" "balanceList st' = balanceList st @ val" "sender st' = sender st"
        by (simp_all add: st')
      from I not 1 show ?thesis
        unfolding inv_def 2 by (simp add: pos_nonneg)
    qed
  qed
qed

lemma inv_step: "inv C st \<Longrightarrow> step C e st = Next st' \<Longrightarrow> inv C st'"
  by (cases e)
     (auto intro: inv_Snapshot inv_SendNext inv_Enqueue inv_Filter inv_Recv inv_CheckPack
        inv_ConfirmTick inv_SweepOne)

lemma no_Intn_panic_step:
  assumes "inv C st" and "\<not> onlytps C" shows "step C e st \<noteq> Crash IntnInvalidArgument"
proof (cases e)
  case (SendNext ev)
  then show ?thesis using no_Intn_panic_SendNext[OF assms(1)] by simp
next
  case (CheckPack now call)
  have "getIncludedAndPendingBalance_loop C call s bs i p \<noteq> Inl IntnInvalidArgument" for s bs i p
    by (induction bs arbitrary: i p)
       (auto simp: getTx_def getClient_def Let_def split: option.splits sum.splits prod.splits if_splits)
  then show ?thesis using CheckPack
    by (auto simp: step_def getIncludedAndPendingBalance_def split: tracker_pc.splits sum.splits)
qed (auto simp: step_def Let_def split: sender_pc.splits list.splits tracker_pc.splits if_splits option.splits)

lemma inv_run: "inv C st \<Longrightarrow> run C es st = Next st' \<Longrightarrow> inv C st'"
proof (induction es arbitrary: st)
  case Nil then show ?case by simp
next
  case (Cons e es)
  then show ?case
    by (cases "step C e st") (auto dest: inv_step)
qed

lemma no_Intn_panic_run:
  "inv C st \<Longrightarrow> \<not> onlytps C \<Longrightarrow> run C es st \<noteq> Crash IntnInvalidArgument"
proof (induction es arbitrary: st)
  case Nil then show ?case by simp
next
  case (Cons e es)
  then show ?case
    using no_Intn_panic_step[of C st e]
    by (cases "step C e st") (auto dest: inv_step)
qed

section \<open>Bootstrap establishes the invariant\<close>

lemma getBalance_range: "getBalance C B a = Inr (amt, ok) \<Longrightarrow> amt < 2 ^ 63"
  using sint_lt[where 'a = 64]
  by (auto simp: getBalance_def big_Div_def split: sum.splits option.splits if_splits)

lemma boot_inv_alloc:
  assumes "boot_inv bl s" and "amount v < 2 ^ 63" and "alloc v s = (b, s1)"
  shows "boot_inv bl s1" and "0 < amount v \<Longrightarrow> boot_inv (bl @ [b]) (upd b (\<lambda>x. x\<lparr>nonce := n\<rparr>) s1)"
  using assms
  by (auto simp: boot_inv_def alloc_def upd_def below_def pos_def ranged_def)

lemma initAccount_loop_inv:
  "boot_inv bl s \<Longrightarrow> initAccount_loop C B keys bl s = Inr (bl', s') \<Longrightarrow> boot_inv bl' s'"
proof (induction keys arbitrary: bl s)
  case Nil
  then show ?case by simp
next
  case (Cons hex rest)
  show ?case
  proof (cases "hex = []")
    case True
    with Cons show ?thesis by simp
  next
    case False
    with Cons.prems obtain key where K: "LoadECDSAFromString B hex = Some key"
      by (cases "LoadECDSAFromString B hex") auto
    let ?addr = "GetAddress B key"
    show ?thesis
    proof (cases "map_of (clientList C) (Shard C ?addr) = None")
      case True
      with Cons False K show ?thesis by simp
    next
      case cl: False
      with Cons.prems False K obtain amt ok where G: "getBalance C B ?addr = Inr (amt, ok)"
        by (cases "getBalance C B ?addr") auto
      show ?thesis
      proof (cases ok)
        case False
        with Cons \<open>hex \<noteq> []\<close> K cl G show ?thesis by simp
      next
        case True
        let ?v = "\<lparr>address = ?addr, privateKey = key, amount = amt, shard = Shard C ?addr,
                    nonce = 0, tx = None, packed = False\<rparr>"
        obtain b s1 where A: "alloc ?v s = (b, s1)" by (cases "alloc ?v s")
        have amt: "amount ?v < 2 ^ 63" using getBalance_range[OF G] by simp
        have c: "cells s1 b = ?v" using A by (auto simp: alloc_def)
        show ?thesis
        proof (cases "0 < amt")
          case False
          with Cons.prems \<open>hex \<noteq> []\<close> K cl G True A c
          have "initAccount_loop C B rest bl s1 = Inr (bl', s')" by (simp add: Let_def)
          from Cons.IH[OF boot_inv_alloc(1)[OF Cons.prems(1) amt A] this] show ?thesis .
        next
          case pos: True
          with Cons.prems \<open>hex \<noteq> []\<close> K cl G True A c obtain n where
            "initAccount_loop C B rest (bl @ [b]) (upd b (\<lambda>x. x\<lparr>nonce := n\<rparr>) s1) = Inr (bl', s')"
            by (cases "getNonce C B ?addr") (auto simp: Let_def)
          moreover have "boot_inv (bl @ [b]) (upd b (\<lambda>x. x\<lparr>nonce := n\<rparr>) s1)"
            using boot_inv_alloc(2)[OF Cons.prems(1) amt A] pos by simp
          ultimately show ?thesis by (rule Cons.IH[rotated])
        qed
      qed
    qed
  qed
qed

lemma initAccount_inv:
  assumes "initAccount C B empty_store = Inr (bl, s)"
  shows "inv C (start bl s)"
proof -
  have "boot_inv [] empty_store"
    by (simp add: boot_inv_def empty_store_def ranged_def)
  moreover from assms obtain keys where
    "initAccount_loop C B (Split_nl keys) [] empty_store = Inr (bl, s)"
    by (auto simp: initAccount_def split: option.splits)
  ultimately have "boot_inv bl s" by (rule initAccount_loop_inv)
  then show ?thesis
    by (simp add: inv_def start_def tracked_def boot_inv_def pos_nonneg)
qed

lemma loop_malformed:
  "hex \<in> set keys \<Longrightarrow> hex \<noteq> [] \<Longrightarrow> LoadECDSAFromString B hex = None \<Longrightarrow>
     \<exists>p. initAccount_loop C B keys bl s = Inl p"
proof (induction keys arbitrary: bl s)
  case Nil
  then show ?case by simp
next
  case (Cons a rest)
  show ?case
  proof (cases "a = hex")
    case True
    with Cons.prems show ?thesis by simp
  next
    case False
    with Cons.prems have "hex \<in> set rest" by simp
    from Cons.IH[OF this Cons.prems(2,3)]
    have IH: "\<And>bl s. \<exists>p. initAccount_loop C B rest bl s = Inl p" by blast
    show ?thesis
      using IH
      by (simp add: Let_def split: option.splits sum.splits prod.splits)
  qed
qed

section \<open>Evaluation on the concrete inputs\<close>

lemmas concrete_send =
  send_def alloc_def upd_def rand_Intn_def getRandClient_def Let_def int64_def
  C_tps_def C_rand_def ev_ok_def ev_fail_def store1_def acct_def

lemma send_tps_fail_eval:
  "send C_tps (ev_fail 0) 0 (store1 5) =
     Inr (1, \<lparr>cells = (\<lambda>r. acct 5)(1 := \<lparr>address = 11, privateKey = 21, amount = 1, shard = 1,
                                         nonce = 0, tx = None, packed = False\<rparr>), nxt = 2\<rparr>)"
  by (simp add: concrete_send)

lemma send_rand_ok_eval:
  "send C_rand (ev_ok 0) 0 (store1 5) =
     Inr (1, \<lparr>cells = (\<lambda>r. acct 5)
                 (0 := (acct 5)\<lparr>nonce := 8\<rparr>,
                  1 := \<lparr>address = 11, privateKey = 21, amount = 0, shard = 1,
                         nonce = 0, tx = Some 99, packed = False\<rparr>), nxt = 2\<rparr>)"
  by (simp add: concrete_send)

section \<open>The claims\<close>




text \<open>
  Claim C2, as amended.  In throughput-only mode the amount is the constant 1.  In
  randomized mode it is \<open>rand.Intn(b.amount)\<close>, a number of \<open>[0, balance)\<close>: it is always
  below the sender's balance, and it can be 0, so the lower bound 1 of the claim does not
  hold.
\<close>

theorem send_amount_range:
  assumes "send C ev b s = Inr (nb, s')" and "b < nxt s"
  shows "(onlytps C \<longrightarrow> amount (cells s' nb) = 1) \<and>
         (\<not> onlytps C \<longrightarrow>
            amount (cells s' nb) = int (draw_amount ev) mod amount (cells s b) \<and>
            0 \<le> amount (cells s' nb) \<and> amount (cells s' nb) < amount (cells s b))"
  by (rule send_result[OF assms]) (auto split: if_splits)

theorem send_amount_range_witness:
  "amount (cells (snd (projr (send C_rand (ev_ok 0) 0 (store1 5)))) 1) = 0
   \<and> amount (cells (store1 5) 0) = 5"
  using send_amount_range[of C_rand "ev_ok 0" 0 "store1 5" 1
          "snd (projr (send C_rand (ev_ok 0) 0 (store1 5)))"]
  by (simp add: send_rand_ok_eval) (simp add: store1_def acct_def)

theorem send_amount_at_least_one_counterexample:
  "\<not> onlytps C_rand \<and> 0 < amount (cells (store1 5) 0)
   \<and> \<not> isl (send C_rand (ev_ok 0) 0 (store1 5))
   \<and> amount (cells (snd (projr (send C_rand (ev_ok 0) 0 (store1 5))))
               (fst (projr (send C_rand (ev_ok 0) 0 (store1 5))))) = 0"
  by (simp add: send_rand_ok_eval) (simp add: store1_def acct_def C_rand_def)

text \<open>
  Claim C8.  The record that \<open>send\<close> builds for the recipient has nonce 0 and
  \<open>packed = false\<close>; its transaction reference is set only to the hash that a successful
  \<open>util.Sendtx\<close> returned for this transfer, and it stays nil when the submission fails.
\<close>

theorem send_recipient_record:
  assumes "send C ev b s = Inr (nb, s')" and "b < nxt s"
  shows "nonce (cells s' nb) = 0 \<and> packed (cells s' nb) = False \<and>
         (tx (cells s' nb) \<noteq> None \<longrightarrow>
            (\<exists>client h. Sendtx ev client (privateKey (cells s b)) (address (cells s' nb))
                 (amount (cells s' nb) * SeeleToFan C) 0 (nonce (cells s b)) [] = (h, True)
               \<and> tx (cells s' nb) = Some h)) \<and>
         ((\<forall>c k a v f n p. \<not> snd (Sendtx ev c k a v f n p)) \<longrightarrow> tx (cells s' nb) = None)"
proof -
  from assms obtain amt addr pk client h ok where
    r: "Sendtx ev client (privateKey (cells s b)) addr (amt * SeeleToFan C) 0 (nonce (cells s b)) [] = (h, ok)"
       "cells s' nb = \<lparr>address = addr, privateKey = pk, amount = amt, shard = Shard C addr,
                          nonce = 0, tx = (if ok then Some h else None), packed = False\<rparr>"
    by (rule send_result)
  have "snd (Sendtx ev client (privateKey (cells s b)) addr (amt * SeeleToFan C) 0 (nonce (cells s b)) []) = ok"
    using r(1) by simp
  then have np: "(\<forall>c k a v f n p. \<not> snd (Sendtx ev c k a v f n p)) \<longrightarrow> \<not> ok"
    by blast
  have "tx (cells s' nb) \<noteq> None \<longrightarrow> ok \<and> tx (cells s' nb) = Some h"
    using r(2) by (simp split: if_splits)
  then show ?thesis using r np by auto
qed

theorem send_recipient_record_witness:
  "nonce (cells (snd (projr (send C_rand (ev_ok 0) 0 (store1 5)))) 1) = 0
   \<and> packed (cells (snd (projr (send C_rand (ev_ok 0) 0 (store1 5)))) 1) = False
   \<and> tx (cells (snd (projr (send C_rand (ev_ok 0) 0 (store1 5)))) 1) = Some 99
   \<and> tx (cells (snd (projr (send C_tps (ev_fail 0) 0 (store1 5)))) 1) = None"
  using send_recipient_record[of C_rand "ev_ok 0" 0 "store1 5" 1
          "snd (projr (send C_rand (ev_ok 0) 0 (store1 5)))"]
    send_recipient_record[of C_tps "ev_fail 0" 0 "store1 5" 1
          "snd (projr (send C_tps (ev_fail 0) 0 (store1 5)))"]
  by (simp add: send_rand_ok_eval send_tps_fail_eval)














lemma time_Sub_cooldown: "confirmTime < time_Sub now key \<longleftrightarrow> confirmTime < now - key"
  by (simp add: time_Sub_def confirmTime_def Let_def)

lemma step_SweepOne_result:
  assumes "step C (SweepOne now) st = Next st'"
  obtains key keys where "\<not> onlytps C" "tracker st = InSweep (key # keys)"
    "st' = (case map_of (toConfirmBalanceList st) key of
              None \<Rightarrow> st\<lparr>tracker := after_sweep keys\<rparr>
            | Some val \<Rightarrow>
                if confirmTime < now - key
                then st\<lparr>balanceList := balanceList st @ val,
                        toConfirmBalanceList := AList.delete key (toConfirmBalanceList st),
                        tracker := after_sweep keys\<rparr>
                else st\<lparr>tracker := after_sweep keys\<rparr>)"
proof -
  from assms have not: "\<not> onlytps C"
    by (auto simp: step_def split: if_splits)
  from assms not obtain key keys where pc: "tracker st = InSweep (key # keys)"
    by (auto simp: step_def split: tracker_pc.splits list.splits)
  show thesis
    by (rule that[OF not pc])
       (use assms not pc in \<open>auto simp: step_def Let_def time_Sub_cooldown split: option.splits\<close>)
qed

lemma pool_grows_only_in_sweep:
  assumes "step C e st = Next st'" and "r \<in> set (balanceList st')" and "r \<notin> set (balanceList st)"
  shows "\<exists>now key val. e = SweepOne now \<and> map_of (toConfirmBalanceList st) key = Some val \<and>
           r \<in> set val \<and> confirmTime < now - key"
proof (cases e)
  case (SweepOne now)
  with assms(1) obtain key keys where
    st': "st' = (case map_of (toConfirmBalanceList st) key of
              None \<Rightarrow> st\<lparr>tracker := after_sweep keys\<rparr>
            | Some val \<Rightarrow>
                if confirmTime < now - key
                then st\<lparr>balanceList := balanceList st @ val,
                        toConfirmBalanceList := AList.delete key (toConfirmBalanceList st),
                        tracker := after_sweep keys\<rparr>
                else st\<lparr>tracker := after_sweep keys\<rparr>)"
    by (auto elim: step_SweepOne_result)
  with assms(2,3) SweepOne show ?thesis
    by (cases "map_of (toConfirmBalanceList st) key") (auto split: if_splits)
next
  case Filter
  with assms show ?thesis
    by (auto simp: step_def split: sender_pc.splits list.splits)
qed (use assms in \<open>auto simp: step_def split: sender_pc.splits list.splits tracker_pc.splits
                        if_splits sum.splits\<close>)

lemma bucket_made_only_by_poll:
  assumes "step C e st = Next st'" and "map_of (toConfirmBalanceList st') key = Some val"
    and "map_of (toConfirmBalanceList st) key \<noteq> Some val"
  shows "\<exists>call. e = CheckPack key call \<and>
           getIncludedAndPendingBalance C call (heap st) (toPackedBalanceList st) =
             Inr (val, toPackedBalanceList st')"
proof (cases e)
  case (SweepOne now)
  with assms(1) obtain k keys where
    st': "st' = (case map_of (toConfirmBalanceList st) k of
              None \<Rightarrow> st\<lparr>tracker := after_sweep keys\<rparr>
            | Some val \<Rightarrow>
                if confirmTime < now - k
                then st\<lparr>balanceList := balanceList st @ val,
                        toConfirmBalanceList := AList.delete k (toConfirmBalanceList st),
                        tracker := after_sweep keys\<rparr>
                else st\<lparr>tracker := after_sweep keys\<rparr>)"
    by (auto elim: step_SweepOne_result)
  with assms(2,3) show ?thesis
    by (cases "map_of (toConfirmBalanceList st) k") (auto simp: delete_conv' split: if_splits)
next
  case (CheckPack now call)
  with assms show ?thesis
    by (auto simp: step_def update_conv' split: tracker_pc.splits if_splits sum.splits)
qed (use assms in \<open>auto simp: step_def split: sender_pc.splits list.splits tracker_pc.splits
                        if_splits sum.splits\<close>)

text \<open>
  Claim C5.  The pool gains an account only in a sweep's visit of a bucket, and only when
  the clock read at that visit is more than \<open>confirmTime\<close> (2 minutes, in nanoseconds)
  past the bucket's key; and a bucket comes into being only in a poll, under the clock
  reading \<open>t\<close> of that poll, holding the accounts that the poll reported as included.  So
  an account put in the bucket stamped \<open>t\<close> re-enters the pool later than \<open>t\<close> plus the
  cool-down.
\<close>

theorem readmission_waits_for_cooldown:
  assumes "step C e st = Next st'"
  shows "(r \<in> set (balanceList st') \<and> r \<notin> set (balanceList st) \<longrightarrow>
            (\<exists>now key val. e = SweepOne now \<and>
               map_of (toConfirmBalanceList st) key = Some val \<and> r \<in> set val \<and>
               2 * 60 * 1000000000 < now - key)) \<and>
         (map_of (toConfirmBalanceList st') t = Some val \<and>
          map_of (toConfirmBalanceList st) t \<noteq> Some val \<longrightarrow>
            (\<exists>call. e = CheckPack t call \<and>
               getIncludedAndPendingBalance C call (heap st) (toPackedBalanceList st) =
                 Inr (val, toPackedBalanceList st')))"
  using pool_grows_only_in_sweep[OF assms, of r] bucket_made_only_by_poll[OF assms, of t val]
  by (simp add: confirmTime_def)

lemma sweep_late_eval:
  "step C_rand (SweepOne 120000000001) sweeping =
     Next (sweeping\<lparr>balanceList := [1], toConfirmBalanceList := [], tracker := AtSelect\<rparr>)"
  by (simp add: step_def time_Sub_def confirmTime_def after_sweep_def Let_def
        C_rand_def C_tps_def sweeping_def start_def)

lemma sweep_early_eval:
  "step C_rand (SweepOne 120000000000) sweeping = Next (sweeping\<lparr>tracker := AtSelect\<rparr>)"
  by (simp add: step_def time_Sub_def confirmTime_def after_sweep_def Let_def
        C_rand_def C_tps_def sweeping_def start_def)

lemma poll_block_eval:
  "step C_rand (CheckPack 5 (rpc_status ''block'')) tracking =
     Next (tracking\<lparr>toPackedBalanceList := [], toConfirmBalanceList := [(5, [1])]\<rparr>)"
  by (simp add: step_def getIncludedAndPendingBalance_def getTx_def getClient_def Let_def
        C_rand_def C_tps_def rpc_status_def tracking_def start_def acct_def)

theorem readmission_waits_for_cooldown_witness:
  "balanceList (next_state (step C_rand (SweepOne 120000000001) sweeping)) = [1]
   \<and> balanceList sweeping = []
   \<and> balanceList (next_state (step C_rand (SweepOne 120000000000) sweeping)) = []
   \<and> toConfirmBalanceList (next_state (step C_rand (CheckPack 5 (rpc_status ''block'')) tracking))
       = [(5, [1])]"
  using readmission_waits_for_cooldown[of C_rand "SweepOne 120000000001" sweeping
          "next_state (step C_rand (SweepOne 120000000001) sweeping)" 1 5 "[1]"]
        readmission_waits_for_cooldown[of C_rand "CheckPack 5 (rpc_status ''block'')" tracking
          "next_state (step C_rand (CheckPack 5 (rpc_status ''block'')) tracking)" 1 5 "[1]"]
  by (simp add: sweep_late_eval sweep_early_eval poll_block_eval)
     (simp add: sweeping_def start_def)

text \<open>
  The association list that stands for the map of buckets never holds a key twice.
\<close>

lemma bucket_keys_distinct_step:
  assumes "distinct (map fst (toConfirmBalanceList st))" and "step C e st = Next st'"
  shows "distinct (map fst (toConfirmBalanceList st'))"
proof (cases e)
  case (SweepOne now)
  with assms(2) obtain key keys where
    "st' = (case map_of (toConfirmBalanceList st) key of
              None \<Rightarrow> st\<lparr>tracker := after_sweep keys\<rparr>
            | Some val \<Rightarrow>
                if confirmTime < now - key
                then st\<lparr>balanceList := balanceList st @ val,
                        toConfirmBalanceList := AList.delete key (toConfirmBalanceList st),
                        tracker := after_sweep keys\<rparr>
                else st\<lparr>tracker := after_sweep keys\<rparr>)"
    by (auto elim: step_SweepOne_result)
  with assms(1) show ?thesis
    by (auto simp: distinct_delete split: option.splits if_splits)
next
  case (CheckPack now call)
  with assms show ?thesis
    by (auto simp: step_def distinct_update split: tracker_pc.splits if_splits sum.splits)
qed (use assms in \<open>auto simp: step_def split: sender_pc.splits list.splits tracker_pc.splits
                        if_splits sum.splits\<close>)

lemma bucket_keys_distinct_run:
  "distinct (map fst (toConfirmBalanceList st)) \<Longrightarrow> run C es st = Next st' \<Longrightarrow>
     distinct (map fst (toConfirmBalanceList st'))"
proof (induction es arbitrary: st)
  case Nil
  then show ?case by simp
next
  case (Cons e es)
  then show ?case
    by (cases "step C e st") (auto dest: bucket_keys_distinct_step)
qed

lemma bucket_keys_distinct_reachable:
  assumes "sendTxCmd_Run C B = Next st0" and "run C es st0 = Next st"
  shows "distinct (map fst (toConfirmBalanceList st))"
proof -
  from assms(1) have "toConfirmBalanceList st0 = []"
    by (auto simp: sendTxCmd_Run_def start_def split: sum.splits)
  then have "distinct (map fst (toConfirmBalanceList st0))" by simp
  from bucket_keys_distinct_run[OF this assms(2)] show ?thesis .
qed







lemmas concrete_boot =
  initAccount_def getBalance_def getNonce_def getClient_def big_Div_def big_Uint64_def
  alloc_def upd_def Let_def empty_store_def
  B_one_def B_missing_def B_bad_def B_rpc_def B_zero_def C_noclient_def C_tps_def C_rand_def

lemma boot_one_eval: "initAccount C_tps B_one empty_store = Inr ([0], seeded)"
  by (simp add: concrete_boot seeded_def acct_def)

lemma boot_one_rand_eval: "initAccount C_rand B_one empty_store = Inr ([0], seeded)"
  by (simp add: concrete_boot seeded_def acct_def)

lemma boot_missing_eval: "initAccount C_tps B_missing empty_store = Inl ReadKeyFileFailed"
  by (simp add: concrete_boot)

lemma boot_bad_eval: "initAccount C_tps B_bad empty_store = Inl LoadKeyFailed"
  by (simp add: concrete_boot)

lemma boot_rpc_eval: "initAccount C_tps B_rpc empty_store = Inl GetBalanceFailed"
  by (simp add: concrete_boot)

lemma boot_noclient_eval: "initAccount C_noclient B_one empty_store = Inr ([], empty_store)"
  by (simp add: concrete_boot)

lemma boot_zero_eval:
  "initAccount C_tps B_zero empty_store =
     Inr ([], \<lparr>cells = (\<lambda>r. null_balance)(0 := (acct 0)\<lparr>nonce := 0\<rparr>), nxt = 1\<rparr>)"
  by (simp add: concrete_boot acct_def)

lemma loop_rpc_failure:
  "hex \<in> set keys \<Longrightarrow> hex \<noteq> [] \<Longrightarrow> LoadECDSAFromString B hex = Some key \<Longrightarrow>
   map_of (clientList C) (Shard C (GetAddress B key)) = Some (Some client) \<Longrightarrow>
   Call_GetBalance B client (GetAddress B key) = None \<Longrightarrow>
     \<exists>p. initAccount_loop C B keys bl s = Inl p"
proof (induction keys arbitrary: bl s)
  case Nil
  then show ?case by simp
next
  case (Cons a rest)
  show ?case
  proof (cases "a = hex")
    case True
    with Cons.prems show ?thesis
      by (simp add: getBalance_def getClient_def Let_def)
  next
    case False
    with Cons.prems have "hex \<in> set rest" by simp
    from Cons.IH[OF this Cons.prems(2-5)]
    have IH: "\<And>bl s. \<exists>p. initAccount_loop C B rest bl s = Inl p" by blast
    show ?thesis
      using IH
      by (simp add: Let_def split: option.splits sum.splits prod.splits)
  qed
qed

text \<open>
  Claim C9.  Bootstrap panics when the key file cannot be read; it skips an empty line,
  and a key whose address lies in a shard without an entry in \<open>clientList\<close>; every account
  of the pool it returns has a positive amount; and it panics when some non-empty line of
  the file is not a key, or when the balance RPC fails for a key of a shard that has a
  client.
\<close>

theorem initAccount_skips_and_panics:
  "(ReadFile B (keyFile C) = None \<longrightarrow> initAccount C B s = Inl ReadKeyFileFailed) \<and>
   initAccount_loop C B ([] # rest) bl s = initAccount_loop C B rest bl s \<and>
   (hex \<noteq> [] \<and> LoadECDSAFromString B hex = Some key \<and>
      map_of (clientList C) (Shard C (GetAddress B key)) = None
    \<longrightarrow> initAccount_loop C B (hex # rest) bl s = initAccount_loop C B rest bl s) \<and>
   (initAccount C B empty_store = Inr (bl', s') \<longrightarrow> (\<forall>r \<in> set bl'. 0 < amount (cells s' r))) \<and>
   (ReadFile B (keyFile C) = Some keys \<and> bad \<in> set (Split_nl keys) \<and> bad \<noteq> [] \<and>
      LoadECDSAFromString B bad = None
    \<longrightarrow> isl (initAccount C B s)) \<and>
   (ReadFile B (keyFile C) = Some keys \<and> hex \<in> set (Split_nl keys) \<and> hex \<noteq> [] \<and>
      LoadECDSAFromString B hex = Some key \<and>
      map_of (clientList C) (Shard C (GetAddress B key)) = Some (Some client) \<and>
      Call_GetBalance B client (GetAddress B key) = None
    \<longrightarrow> isl (initAccount C B s))"
proof -
  have 1: "ReadFile B (keyFile C) = None \<longrightarrow> initAccount C B s = Inl ReadKeyFileFailed"
    by (simp add: initAccount_def)
  have 2: "initAccount_loop C B ([] # rest) bl s = initAccount_loop C B rest bl s"
    by simp
  have 3: "hex \<noteq> [] \<and> LoadECDSAFromString B hex = Some key \<and>
      map_of (clientList C) (Shard C (GetAddress B key)) = None
    \<longrightarrow> initAccount_loop C B (hex # rest) bl s = initAccount_loop C B rest bl s"
    by simp
  have 4: "initAccount C B empty_store = Inr (bl', s') \<longrightarrow> (\<forall>r \<in> set bl'. 0 < amount (cells s' r))"
  proof
    assume "initAccount C B empty_store = Inr (bl', s')"
    from initAccount_inv[OF this] show "\<forall>r \<in> set bl'. 0 < amount (cells s' r)"
      by (simp add: inv_def start_def pos_def)
  qed
  have 5: "ReadFile B (keyFile C) = Some keys \<and> bad \<in> set (Split_nl keys) \<and> bad \<noteq> [] \<and>
      LoadECDSAFromString B bad = None \<longrightarrow> isl (initAccount C B s)"
  proof
    assume A: "ReadFile B (keyFile C) = Some keys \<and> bad \<in> set (Split_nl keys) \<and> bad \<noteq> [] \<and>
      LoadECDSAFromString B bad = None"
    then obtain p where "initAccount_loop C B (Split_nl keys) [] s = Inl p"
      using loop_malformed[of bad "Split_nl keys" B C "[]" s] by blast
    with A show "isl (initAccount C B s)" by (simp add: initAccount_def)
  qed
  have 6: "ReadFile B (keyFile C) = Some keys \<and> hex \<in> set (Split_nl keys) \<and> hex \<noteq> [] \<and>
      LoadECDSAFromString B hex = Some key \<and>
      map_of (clientList C) (Shard C (GetAddress B key)) = Some (Some client) \<and>
      Call_GetBalance B client (GetAddress B key) = None
    \<longrightarrow> isl (initAccount C B s)"
  proof
    assume A: "ReadFile B (keyFile C) = Some keys \<and> hex \<in> set (Split_nl keys) \<and> hex \<noteq> [] \<and>
      LoadECDSAFromString B hex = Some key \<and>
      map_of (clientList C) (Shard C (GetAddress B key)) = Some (Some client) \<and>
      Call_GetBalance B client (GetAddress B key) = None"
    then obtain p where "initAccount_loop C B (Split_nl keys) [] s = Inl p"
      using loop_rpc_failure[of hex "Split_nl keys" B key C client "[]" s] by blast
    with A show "isl (initAccount C B s)" by (simp add: initAccount_def)
  qed
  from 1 2 3 4 5 6 show ?thesis by blast
qed

theorem initAccount_skips_and_panics_witness:
  "initAccount C_tps B_missing empty_store = Inl ReadKeyFileFailed
   \<and> isl (initAccount C_tps B_bad empty_store)
   \<and> isl (initAccount C_tps B_rpc empty_store)
   \<and> initAccount_loop C_noclient B_one [''k''] [] empty_store
       = initAccount_loop C_noclient B_one [] [] empty_store
   \<and> 0 < amount (cells (snd (projr (initAccount C_tps B_one empty_store))) 0)
   \<and> fst (projr (initAccount C_tps B_zero empty_store)) = []"
proof -
  have a: "initAccount C_tps B_missing empty_store = Inl ReadKeyFileFailed"
    using initAccount_skips_and_panics[where B = B_missing and C = C_tps and s = empty_store]
    by (simp add: B_missing_def B_one_def)
  have b: "isl (initAccount C_tps B_bad empty_store)"
    using initAccount_skips_and_panics[where B = B_bad and C = C_tps and s = empty_store
      and keys = "''k''" and bad = "''k''"]
    by (simp add: B_bad_def B_one_def)
  have c: "isl (initAccount C_tps B_rpc empty_store)"
    using initAccount_skips_and_panics[where B = B_rpc and C = C_tps and s = empty_store
      and keys = "''k''" and hex = "''k''" and key = 20 and client = 0]
    by (simp add: B_rpc_def B_one_def C_tps_def)
  have d: "initAccount_loop C_noclient B_one [''k''] [] empty_store
             = initAccount_loop C_noclient B_one [] [] empty_store"
    using initAccount_skips_and_panics[where B = B_one and C = C_noclient and s = empty_store
      and hex = "''k''" and key = 20 and rest = "[]" and bl = "[]"]
    by (simp add: B_one_def C_noclient_def C_tps_def)
  have e: "0 < amount (cells (snd (projr (initAccount C_tps B_one empty_store))) 0)"
    using initAccount_skips_and_panics[where B = B_one and C = C_tps and bl' = "[0]"
      and s' = seeded]
    by (simp add: boot_one_eval)
  have f: "fst (projr (initAccount C_tps B_zero empty_store)) = []"
    by (simp add: boot_zero_eval)
  from a b c d e f show ?thesis by (intro conjI)
qed


text \<open>
  Claim C10.  In randomized mode no run of the two loops from bootstrap ends in the panic
  of \<open>rand.Intn\<close>: in every reachable state the accounts of the pool, of the snapshot
  still to visit, of the channel and of the tracker all have a positive amount.
\<close>

theorem rand_Intn_never_panics:
  assumes "sendTxCmd_Run C B = Next st0" and "\<not> onlytps C"
  shows "run C es st0 \<noteq> Crash IntnInvalidArgument \<and>
         (\<forall>st. run C es st0 = Next st \<longrightarrow>
            (\<forall>r \<in> set (balanceList st) \<union> set (sender_rest (sender st)) \<union> tracked st.
               0 < amount (cells (heap st) r)))"
proof -
  from assms(1) obtain bl s where "initAccount C B empty_store = Inr (bl, s)" "st0 = start bl s"
    by (auto simp: sendTxCmd_Run_def split: sum.splits)
  then have I: "inv C st0" using initAccount_inv by simp
  have "\<forall>r \<in> set (balanceList st) \<union> set (sender_rest (sender st)) \<union> tracked st.
               0 < amount (cells (heap st) r)"
    if "run C es st0 = Next st" for st
    using inv_run[OF I that] assms(2) by (auto simp: inv_def pos_def)
  with no_Intn_panic_run[OF I assms(2)] show ?thesis by blast
qed


lemma Run_one_rand_eval: "sendTxCmd_Run C_rand B_one = Next (start [0] seeded)"
  by (simp add: sendTxCmd_Run_def boot_one_rand_eval)


lemma rand_send_eval:
  "run C_rand [Snapshot, SendNext (ev_ok 3)] (start [0] seeded) = Next after_rand_send"
  by (simp add: step_def send_def alloc_def upd_def rand_Intn_def getRandClient_def Let_def
        int64_def count_step_def txCh_capacity_def C_rand_def C_tps_def ev_ok_def start_def
        seeded_def acct_def after_rand_send_def fun_upd_twist)


theorem rand_Intn_never_panics_witness:
  "run C_rand [Snapshot, SendNext (ev_ok 3)] (next_state (sendTxCmd_Run C_rand B_one))
     \<noteq> Crash IntnInvalidArgument
   \<and> run C_rand [Snapshot, SendNext (ev_ok 3)] (next_state (sendTxCmd_Run C_rand B_one))
     = Next after_rand_send
   \<and> amount (cells (heap after_rand_send) 0) = 97"
  using rand_Intn_never_panics[of C_rand B_one "start [0] seeded"
          "[Snapshot, SendNext (ev_ok 3)]"]
  by (simp only: Run_one_rand_eval rand_send_eval outcome.sel)
     (simp add: after_rand_send_def C_rand_def acct_def)

end
